theory Spec2Isabelle
  imports Main "HOL-Library.Sublist"
begin

section \<open>Python strings\<close>

text \<open>
  A Python \<^verbatim>\<open>str\<close> is a sequence of Unicode code points, and \<^verbatim>\<open>len\<close>, slicing,
  \<^verbatim>\<open>strip\<close> and \<^verbatim>\<open>split\<close> all count code points. A string is therefore a list of
  code points, each a natural number. An ASCII literal of the source is written
  \<open>str ''...''\<close>.
\<close>

type_synonym pystr = "nat list"

definition str :: "string \<Rightarrow> pystr" where
  "str s = map of_char s"

text \<open>
  \<^verbatim>\<open>str.isspace\<close> for one code point. \<^verbatim>\<open>str.strip()\<close>, \<^verbatim>\<open>str.split()\<close> and the class
  \<^verbatim>\<open>\s\<close> of \<^verbatim>\<open>re\<close> on a \<^verbatim>\<open>str\<close> pattern all use this same set: U+0009..U+000D,
  U+001C..U+0020, U+0085, U+00A0, U+1680, U+2000..U+200A, U+2028, U+2029, U+202F,
  U+205F, U+3000.
\<close>

definition is_space :: "nat \<Rightarrow> bool" where
  "is_space c \<longleftrightarrow>
     (9 \<le> c \<and> c \<le> 13) \<or> (28 \<le> c \<and> c \<le> 32) \<or> c = 133 \<or> c = 160 \<or> c = 5760 \<or>
     (8192 \<le> c \<and> c \<le> 8202) \<or> c = 8232 \<or> c = 8233 \<or> c = 8239 \<or> c = 8287 \<or> c = 12288"

text \<open>The class \<^verbatim>\<open>[a-z0-9]\<close>.\<close>

definition is_lower_alnum :: "nat \<Rightarrow> bool" where
  "is_lower_alnum c \<longleftrightarrow> (97 \<le> c \<and> c \<le> 122) \<or> (48 \<le> c \<and> c \<le> 57)"

text \<open>
  \<^verbatim>\<open>str.lower()\<close>, one code point at a time. The table is written out for the code
  points below 256 (A..Z, and U+00C0..U+00DE without U+00D7) and for the two code points
  above them whose lower-case form contains an ASCII letter: U+0130, which becomes
  \<^verbatim>\<open>i\<close> followed by U+0307, and U+212A (the Kelvin sign), which becomes \<^verbatim>\<open>k\<close>.
  Every other code point is returned as it is. CPython maps many of those to another code
  point above 127 (and a capital sigma to one of two, by its position in the word); the
  only caller, \<open>clean_words\<close>, blanks each of them in its next line, so the word set
  it computes is the same.
\<close>

definition lower_cp :: "nat \<Rightarrow> pystr" where
  "lower_cp c =
     (if 65 \<le> c \<and> c \<le> 90 then [c + 32]
      else if 192 \<le> c \<and> c \<le> 222 \<and> c \<noteq> 215 then [c + 32]
      else if c = 304 then [105, 775]
      else if c = 8490 then [107]
      else [c])"

definition lower :: "pystr \<Rightarrow> pystr" where
  "lower text = concat (map lower_cp text)"

text \<open>\<^verbatim>\<open>s.strip()\<close>: the white space at both ends is removed.\<close>

definition strip :: "pystr \<Rightarrow> pystr" where
  "strip s = rev (dropWhile is_space (rev (dropWhile is_space s)))"

text \<open>
  \<^verbatim>\<open>s.split()\<close> with no argument: the maximal runs of code points that are not white
  space, left to right. \<open>cur\<close> is the run being read.
\<close>

fun split_run :: "pystr \<Rightarrow> pystr \<Rightarrow> pystr list" where
  "split_run cur [] = (if cur = [] then [] else [cur])"
| "split_run cur (c # cs) =
     (if is_space c then (if cur = [] then split_run [] cs else cur # split_run [] cs)
      else split_run (cur @ [c]) cs)"

definition split :: "pystr \<Rightarrow> pystr list" where
  "split s = split_run [] s"

text \<open>\<^verbatim>\<open>sep.join(xs)\<close>.\<close>

fun join :: "pystr \<Rightarrow> pystr list \<Rightarrow> pystr" where
  "join sep [] = []"
| "join sep [x] = x"
| "join sep (x # y # ys) = x @ sep @ join sep (y # ys)"

text \<open>\<^verbatim>\<open>str(n)\<close> for a length: the decimal digits.\<close>

function str_of_nat :: "nat \<Rightarrow> pystr" where
  "str_of_nat n = (if n < 10 then [48 + n] else str_of_nat (n div 10) @ [48 + n mod 10])"
  by pat_completeness auto
termination
  by (relation "measure id") auto

section \<open>Slices and ranges\<close>

datatype py_error =
    ValueError           \<comment> \<open>\<^verbatim>\<open>range()\<close> with step zero\<close>
  | PdfReadError         \<comment> \<open>raised by \<^verbatim>\<open>PdfReader\<close> or \<^verbatim>\<open>extract_text\<close>\<close>
  | RequestException     \<comment> \<open>raised by \<^verbatim>\<open>requests.post\<close>\<close>
  | ResponseFormatError  \<comment> \<open>raised while reading the JSON body of a response\<close>

text \<open>
  \<^verbatim>\<open>xs[a:b]\<close>: a negative bound counts from the end, and both bounds are clamped to
  \<open>0..len(xs)\<close>. \<^verbatim>\<open>xs[:b]\<close> is \<open>py_slice xs 0 b\<close>.
\<close>

definition clamp_index :: "int \<Rightarrow> int \<Rightarrow> int" where
  "clamp_index n i = (if i < 0 then max 0 (i + n) else min i n)"

definition py_slice :: "'a list \<Rightarrow> int \<Rightarrow> int \<Rightarrow> 'a list" where
  "py_slice xs a b =
     (let n = int (length xs); lo = clamp_index n a; hi = clamp_index n b
      in take (nat (hi - lo)) (drop (nat lo) xs))"

text \<open>
  \<^verbatim>\<open>range(start, stop, step)\<close> as the list it iterates over. A zero step raises
  \<^verbatim>\<open>ValueError\<close>; the length is computed as CPython does, and item \<open>k\<close> is
  \<open>start + k * step\<close>.
\<close>

definition range_length :: "int \<Rightarrow> int \<Rightarrow> int \<Rightarrow> nat" where
  "range_length start stop step =
     (if 0 < step \<and> start < stop then nat (1 + (stop - 1 - start) div step)
      else if step < 0 \<and> stop < start then nat (1 + (start - 1 - stop) div (- step))
      else 0)"

definition py_range :: "int \<Rightarrow> int \<Rightarrow> int \<Rightarrow> py_error + int list" where
  "py_range start stop step =
     (if step = 0 then Inl ValueError
      else Inr (map (\<lambda>k. start + int k * step) [0..<range_length start stop step]))"

section \<open>Chunking\<close>

text \<open>
  \<^verbatim>\<open>chunk_text(text, chunk_size=400)\<close>. The body of the loop is \<open>chunk_step\<close>: it
  takes the list built so far and the index \<open>i\<close>.
\<close>

definition chunk_step :: "pystr \<Rightarrow> int \<Rightarrow> pystr list \<Rightarrow> int \<Rightarrow> pystr list" where
  "chunk_step text chunk_size chunks i =
     (let chunk = strip (py_slice text i (i + chunk_size))
      in if 50 < length chunk then chunks @ [chunk] else chunks)"

definition chunk_text :: "pystr \<Rightarrow> int \<Rightarrow> py_error + pystr list" where
  "chunk_text text chunk_size =
     (case py_range 0 (int (length text)) chunk_size of
        Inl e \<Rightarrow> Inl e
      | Inr idxs \<Rightarrow> Inr (foldl (chunk_step text chunk_size) [] idxs))"

definition default_chunk_size :: int where
  "default_chunk_size = 400"

section \<open>Word sets and retrieval\<close>

text \<open>
  \<^verbatim>\<open>re.sub(r"[^a-z0-9\s]", " ", text)\<close>: every code point outside \<^verbatim>\<open>[a-z0-9\s]\<close> is
  replaced by a space (U+0020).
\<close>

definition re_sub_other :: "pystr \<Rightarrow> pystr" where
  "re_sub_other text = map (\<lambda>c. if is_lower_alnum c \<or> is_space c then c else 32) text"

definition clean_words :: "pystr \<Rightarrow> pystr set" where
  "clean_words text = set (split (re_sub_other (lower text)))"

text \<open>\<^verbatim>\<open>len(query_words & chunk_words)\<close> for a query and a chunk.\<close>

definition overlap_score :: "pystr set \<Rightarrow> pystr \<Rightarrow> nat" where
  "overlap_score query_words chunk = card (query_words \<inter> clean_words chunk)"

text \<open>
  \<^verbatim>\<open>xs.sort(reverse=True, key=k)\<close>. CPython reverses the list, sorts it stably by
  ascending key and reverses the result, so equal keys keep their order.
\<close>

definition sort_reverse :: "('a \<Rightarrow> nat) \<Rightarrow> 'a list \<Rightarrow> 'a list" where
  "sort_reverse k xs = rev (sort_key k (rev xs))"

text \<open>The body of the scoring loop of \<^verbatim>\<open>retrieve_relevant_chunks\<close>.\<close>

definition score_step :: "pystr set \<Rightarrow> (nat \<times> pystr) list \<Rightarrow> pystr \<Rightarrow> (nat \<times> pystr) list" where
  "score_step query_words scored_chunks chunk =
     (let s = overlap_score query_words chunk
      in if 0 < s then scored_chunks @ [(s, chunk)] else scored_chunks)"

definition scored :: "pystr set \<Rightarrow> pystr list \<Rightarrow> (nat \<times> pystr) list" where
  "scored query_words corpus = foldl (score_step query_words) [] corpus"

text \<open>
  \<^verbatim>\<open>retrieve_relevant_chunks(query, top_k=3)\<close>; the global \<^verbatim>\<open>DOCUMENT_CHUNKS\<close> it reads
  is the third argument.
\<close>

definition retrieve_relevant_chunks :: "pystr \<Rightarrow> int \<Rightarrow> pystr list \<Rightarrow> pystr list" where
  "retrieve_relevant_chunks query top_k corpus =
     (let query_words = clean_words query
      in if query_words = {} then []
         else map snd (py_slice (sort_reverse fst (scored query_words corpus)) 0 top_k))"

definition default_top_k :: int where
  "default_top_k = 3"

section \<open>The application state and its operations\<close>

text \<open>
  The two module globals, and the calls \<^verbatim>\<open>ask_groq\<close> has made so far, oldest first:
  a call of \<^verbatim>\<open>retrieve_relevant_chunks\<close> or a request posted to the completion service.
\<close>

record chat_message =
  role :: pystr
  content :: pystr

record payload =
  model :: pystr
  messages :: "chat_message list"
  temperature :: pystr    \<comment> \<open>the literal \<^verbatim>\<open>0.3\<close>\<close>
  max_tokens :: int

record request =
  url :: pystr
  json :: payload
  headers :: "(pystr \<times> pystr) list"

datatype call = Retrieve pystr | Post request

record app =
  DOCUMENT_CHUNKS :: "pystr list"
  GROQ_API_KEY :: "pystr option"
  calls :: "call list"

text \<open>
  What the completion service answers: a status code, and the value of
  \<^verbatim>\<open>response.json()["choices"][0]["message"]["content"]\<close> or the exception that reading
  it raises. \<^verbatim>\<open>requests.post\<close> itself is a function from the request to this answer or
  to the exception it raises.
\<close>

record response =
  status_code :: int
  body_content :: "py_error + pystr"

type_synonym service = "request \<Rightarrow> py_error + response"

definition GROQ_URL :: pystr where
  "GROQ_URL = str ''https://api.groq.com/openai/v1/chat/completions''"

definition MODEL :: pystr where
  "MODEL = str ''llama-3.3-70b-versatile''"

definition SYSTEM_PROMPT :: pystr where
  "SYSTEM_PROMPT = str (
     ''\<newline>You are DocPilotAI, an intelligent assistant that answers questions strictly based on the uploaded PDF documents.\<newline>'' @
     ''Rules:\<newline>'' @
     ''- Use ONLY the provided document context to answer.\<newline>'' @
     ''- If the answer is not found in the document, clearly say that it is not available in the provided PDFs.\<newline>'' @
     ''- Explain answers in a clear, student-friendly way.\<newline>'' @
     ''Explanation Style:\<newline>'' @
     ''- If the topic is theoretical, conceptual, language-related, or a computer science concept, explain it with simple and clear examples.\<newline>'' @
     ''- If the topic is programming or code-related, explain it using relevant code examples taken from or consistent with the document context.\<newline>'' @
     ''- Break complex ideas into steps or bullet points when helpful.\<newline>'' @
     ''- Keep explanations clear, structured, and easy to understand for a student.\<newline>'' @
     ''Do not add outside knowledge. Do not guess. Stay within the document content.\<newline>'')"

text \<open>
  The messages shown to the user. The pictographs are U+274C (cross mark), U+26A0 U+FE0F
  (warning sign), U+2705 (check mark), U+1F4C4 (page) and U+1F9F9 (broom).
\<close>

definition KEY_NOT_FOUND :: pystr where
  "KEY_NOT_FOUND = 10060 # str '' GROQ API key not found.''"

definition NO_RELEVANT :: pystr where
  "NO_RELEVANT = str ''No relevant information found in the uploaded PDFs.''"

definition GROQ_ERROR :: pystr where
  "GROQ_ERROR = 10060 # str '' Error communicating with Groq API.''"

definition NO_FILES :: pystr where
  "NO_FILES = 10060 # str '' No files uploaded.''"

definition PROCESS_FIRST :: pystr where
  "PROCESS_FIRST = 9888 # 65039 # str '' Please upload and process PDFs first.''"

definition CLEARED :: pystr where
  "CLEARED = 129529 # str '' Cleared. Upload PDFs to start again.''"

definition processed_status :: "nat \<Rightarrow> nat \<Rightarrow> pystr" where
  "processed_status n_files n_chunks =
     9989 # str '' '' @ str_of_nat n_files @ str '' PDF(s) processed\<newline>'' @
     128196 # str '' '' @ str_of_nat n_chunks @ str '' text chunks created''"

text \<open>
  An uploaded file is what \<^verbatim>\<open>PdfReader(f.name)\<close> makes of it: the exception it raises,
  or the value of \<^verbatim>\<open>extract_text()\<close> for each page (a string or \<^verbatim>\<open>None\<close>).
\<close>

type_synonym pdf_file = "py_error + pystr option list"

definition page_step :: "pystr \<Rightarrow> pystr option \<Rightarrow> pystr" where
  "page_step text page_text =
     (case page_text of
        None \<Rightarrow> text
      | Some t \<Rightarrow> if t \<noteq> [] then text @ t @ str ''\<newline>'' else text)"

fun extract_from :: "pystr \<Rightarrow> pdf_file list \<Rightarrow> py_error + pystr" where
  "extract_from text [] = Inr text"
| "extract_from text (f # fs) =
     (case f of
        Inl e \<Rightarrow> Inl e
      | Inr pages \<Rightarrow> extract_from (foldl page_step text pages) fs)"

definition extract_text_from_pdfs :: "pdf_file list \<Rightarrow> py_error + pystr" where
  "extract_text_from_pdfs files = extract_from [] files"

text \<open>
  \<^verbatim>\<open>ask_groq(question)\<close>. An exception leaves the state as it was when it was raised.
\<close>

definition build_request :: "pystr \<Rightarrow> pystr \<Rightarrow> pystr list \<Rightarrow> request" where
  "build_request key question relevant_chunks =
     (let context = join (str ''\<newline>\<newline>'') relevant_chunks
      in \<lparr> url = GROQ_URL,
           json = \<lparr> model = MODEL,
                    messages =
                      [\<lparr> role = str ''system'', content = SYSTEM_PROMPT \<rparr>,
                       \<lparr> role = str ''system'', content = str ''Document Context:\<newline>'' @ context \<rparr>,
                       \<lparr> role = str ''user'', content = question \<rparr>],
                    temperature = str ''0.3'',
                    max_tokens = 800 \<rparr>,
           headers = [(str ''Authorization'', str ''Bearer '' @ key),
                      (str ''Content-Type'', str ''application/json'')] \<rparr>)"

definition ask_groq :: "service \<Rightarrow> pystr \<Rightarrow> app \<Rightarrow> (py_error + pystr) \<times> app" where
  "ask_groq post question st =
     (case GROQ_API_KEY st of
        None \<Rightarrow> (Inr KEY_NOT_FOUND, st)
      | Some key \<Rightarrow>
          if key = [] then (Inr KEY_NOT_FOUND, st)
          else
            let st1 = st\<lparr>calls := calls st @ [Retrieve question]\<rparr>;
                relevant_chunks = retrieve_relevant_chunks question default_top_k (DOCUMENT_CHUNKS st)
            in if relevant_chunks = [] then (Inr NO_RELEVANT, st1)
               else
                 let req = build_request key question relevant_chunks;
                     st2 = st1\<lparr>calls := calls st1 @ [Post req]\<rparr>
                 in case post req of
                      Inl e \<Rightarrow> (Inl e, st2)
                    | Inr resp \<Rightarrow>
                        if status_code resp = 200
                        then (case body_content resp of
                                Inl e \<Rightarrow> (Inl e, st2)
                              | Inr answer \<Rightarrow> (Inr answer, st2))
                        else (Inr GROQ_ERROR, st2))"

text \<open>
  \<^verbatim>\<open>process_pdfs(files)\<close>; \<open>files\<close> is \<^verbatim>\<open>None\<close> or a list.
\<close>

definition process_pdfs :: "pdf_file list option \<Rightarrow> app \<Rightarrow> (py_error + pystr) \<times> app" where
  "process_pdfs files st =
     (case files of
        None \<Rightarrow> (Inr NO_FILES, st)
      | Some fs \<Rightarrow>
          if fs = [] then (Inr NO_FILES, st)
          else case extract_text_from_pdfs fs of
                 Inl e \<Rightarrow> (Inl e, st)
               | Inr text \<Rightarrow>
                   (case chunk_text text default_chunk_size of
                      Inl e \<Rightarrow> (Inl e, st)
                    | Inr chunks \<Rightarrow>
                        (Inr (processed_status (length fs) (length chunks)),
                         st\<lparr>DOCUMENT_CHUNKS := chunks\<rparr>)))"

text \<open>
  \<^verbatim>\<open>chat_fn(message, history)\<close>; \<open>history\<close> is \<^verbatim>\<open>None\<close> or a list. The result is the
  new history and the new content of the text box.
\<close>

definition chat_fn ::
  "service \<Rightarrow> pystr \<Rightarrow> chat_message list option \<Rightarrow> app \<Rightarrow>
     (py_error + chat_message list \<times> pystr) \<times> app" where
  "chat_fn post message history st =
     (let history0 = (case history of None \<Rightarrow> [] | Some h \<Rightarrow> h);
          history1 = history0 @ [\<lparr> role = str ''user'', content = message \<rparr>]
      in if DOCUMENT_CHUNKS st = []
         then (Inr (history1 @ [\<lparr> role = str ''assistant'', content = PROCESS_FIRST \<rparr>], []), st)
         else case ask_groq post message st of
                (Inl e, st') \<Rightarrow> (Inl e, st')
              | (Inr reply, st') \<Rightarrow>
                  (Inr (history1 @ [\<lparr> role = str ''assistant'', content = reply \<rparr>], []), st'))"

text \<open>\<^verbatim>\<open>clear_all()\<close>: the new history, the status, and the new state.\<close>

definition clear_all :: "app \<Rightarrow> (chat_message list \<times> pystr) \<times> app" where
  "clear_all st = (([], CLEARED), st\<lparr>DOCUMENT_CHUNKS := []\<rparr>)"

text \<open>
  The state when the module has been loaded with the key \<open>key\<close> in the environment,
  and the two operations that assign \<^verbatim>\<open>DOCUMENT_CHUNKS\<close>, run one after the other.
\<close>

definition initial :: "pystr option \<Rightarrow> app" where
  "initial key = \<lparr> DOCUMENT_CHUNKS = [], GROQ_API_KEY = key, calls = [] \<rparr>"

datatype operation = Process_Pdfs "pdf_file list option" | Clear_All

fun perform :: "app \<Rightarrow> operation \<Rightarrow> app" where
  "perform st (Process_Pdfs files) = snd (process_pdfs files st)"
| "perform st Clear_All = snd (clear_all st)"

definition run :: "operation list \<Rightarrow> app \<Rightarrow> app" where
  "run ops st = foldl perform st ops"

section \<open>The specification's wording of chunking\<close>

text \<open>
  The windows \<^verbatim>\<open>text[i : i+chunk_size]\<close> for \<open>i = 0, chunk_size, 2*chunk_size, ...\<close>
  below the length of the text, left to right.
\<close>

definition windows :: "pystr \<Rightarrow> nat \<Rightarrow> pystr list" where
  "windows text chunk_size =
     map (\<lambda>i. take chunk_size (drop i text)) (filter (\<lambda>i. chunk_size dvd i) [0..<length text])"

text \<open>The white space that \<open>strip\<close> removes at the front and at the back of a string.\<close>

definition leading :: "pystr \<Rightarrow> pystr" where
  "leading s = takeWhile is_space s"

definition trailing :: "pystr \<Rightarrow> pystr" where
  "trailing s = rev (takeWhile is_space (rev (dropWhile is_space s)))"

text \<open>A string without its white space.\<close>

definition non_space :: "pystr \<Rightarrow> pystr" where
  "non_space s = filter (\<lambda>c. \<not> is_space c) s"

text \<open>
  The chunks rebuild the text up to white space and a short fragment at its end: some
  suffix of the text with at most 50 code points once stripped is the only thing
  missing. White space is ignored everywhere here, not only at the ends of the windows,
  which asks less of the chunks.
\<close>

definition rebuilds_up_to_tail :: "pystr \<Rightarrow> pystr list \<Rightarrow> bool" where
  "rebuilds_up_to_tail text chunks \<longleftrightarrow>
     (\<exists>tail \<in> set (suffixes text).
        length (strip tail) \<le> 50 \<and> non_space (concat chunks) @ non_space tail = non_space text)"

text \<open>A valid chunk: stripped, and longer than 50 code points.\<close>

definition valid_chunk :: "pystr \<Rightarrow> bool" where
  "valid_chunk c \<longleftrightarrow> strip c = c \<and> 50 < length c"

section \<open>Properties of chunking\<close>

subsection \<open>Slices, ranges and windows\<close>

lemma foldl_chunk_step:
  "foldl (chunk_step t cs) acc idxs =
     acc @ filter (\<lambda>c. 50 < length c) (map (\<lambda>i. strip (py_slice t i (i + cs))) idxs)"
  by (induction idxs arbitrary: acc) (auto simp: chunk_step_def Let_def)

lemma py_slice_window:
  assumes "i < length t"
  shows "py_slice t (int i) (int i + int c) = take c (drop i t)"
proof -
  have lo: "clamp_index (int (length t)) (int i) = int i"
    using assms unfolding clamp_index_def by auto
  have hi: "clamp_index (int (length t)) (int i + int c) = min (int i + int c) (int (length t))"
    using assms unfolding clamp_index_def by auto
  show ?thesis
    unfolding py_slice_def Let_def lo hi using assms
    by (auto simp: min_def intro!: nth_equalityI)
qed

lemma range_length_pos:
  assumes "0 < c"
  shows "range_length 0 (int n) (int c) = (n + c - 1) div c"
proof (cases "n = 0")
  case True
  then show ?thesis using assms by (simp add: range_length_def)
next
  case False
  have "(1 + (int n - 1 - 0) div int c) = (int n - 1 + int c) div int c"
    using assms div_add_self2[of "int c" "int n - 1"] by simp
  also have "\<dots> = int (n + c - 1) div int c"
    using False by (simp add: of_nat_diff algebra_simps)
  also have "\<dots> = int ((n + c - 1) div c)"
    by (simp add: zdiv_int)
  finally show ?thesis using False assms
    by (simp add: range_length_def)
qed

lemma ceil_div_bound:
  assumes "0 < (c::nat)" "k < (n + c - 1) div c"
  shows "k * c < n"
proof -
  have "Suc k \<le> (n + c - 1) div c" using assms by simp
  then have "Suc k * c \<le> n + c - 1"
    using assms(1) by (simp add: less_eq_div_iff_mult_less_eq)
  then show ?thesis using assms(1) by simp
qed

lemma ceil_dvd:
  assumes "0 < (c::nat)" "c dvd n"
  shows "(n + c) div c = Suc ((n + c - 1) div c)" "((n + c - 1) div c) * c = n"
proof -
  from assms(2) obtain q where q: "n = c * q" by (auto simp: dvd_def)
  have e: "n + c - 1 = c * q + (c - 1)" using assms(1) q by simp
  have "(c * q + (c - 1)) div c = q + (c - 1) div c"
    using assms(1) by (intro div_mult_self4) simp
  then have d: "(n + c - 1) div c = q"
    unfolding e using assms(1) by simp
  show "(n + c) div c = Suc ((n + c - 1) div c)"
    unfolding d using assms(1) q by simp
  show "((n + c - 1) div c) * c = n"
    unfolding d using q by simp
qed

lemma ceil_not_dvd:
  assumes "0 < (c::nat)" "\<not> c dvd n"
  shows "(n + c) div c = (n + c - 1) div c"
proof -
  have r: "0 < n mod c" using assms by (simp add: dvd_eq_mod_eq_0)
  have "n + c - 1 = c * (n div c + 1) + (n mod c - 1)"
  proof -
    have "n = c * (n div c) + n mod c" by simp
    then have "n + c - 1 = c * (n div c) + n mod c + c - 1" by simp
    also have "\<dots> = c * (n div c) + c + (n mod c - 1)" using r by simp
    finally show ?thesis by (simp add: algebra_simps)
  qed
  then have "(n + c - 1) div c = (n div c + 1) + (n mod c - 1) div c"
    using assms(1) by (simp only: div_mult_self4)
  moreover have "(n mod c - 1) div c = 0"
    using assms(1) by (simp add: less_imp_diff_less)
  moreover have "(n + c) div c = n div c + 1"
    using assms(1) by (intro div_add_self2) simp
  ultimately show ?thesis by simp
qed

lemma filter_dvd_upt:
  assumes "0 < (c::nat)"
  shows "filter (\<lambda>i. c dvd i) [0..<n] = map (\<lambda>k. k * c) [0..<(n + c - 1) div c]"
proof (induction n)
  case 0
  then show ?case using assms by simp
next
  case (Suc n)
  show ?case
  proof (cases "c dvd n")
    case True
    then show ?thesis
      using Suc ceil_dvd[OF assms True] by simp
  next
    case False
    then show ?thesis
      using Suc ceil_not_dvd[OF assms False] by simp
  qed
qed

lemma windows_by_index:
  assumes "0 < c"
  shows "windows t c = map (\<lambda>k. take c (drop (k * c) t)) [0..<(length t + c - 1) div c]"
  by (simp add: windows_def filter_dvd_upt[OF assms] comp_def)

lemma chunk_text_by_index:
  assumes "0 < c"
  shows "chunk_text t (int c) =
     Inr (filter (\<lambda>w. 50 < length w)
            (map (\<lambda>k. strip (take c (drop (k * c) t))) [0..<(length t + c - 1) div c]))"
proof -
  have "map (\<lambda>i. strip (py_slice t i (i + int c))) (map (\<lambda>k. 0 + int k * int c) [0..<(length t + c - 1) div c])
      = map (\<lambda>k. strip (take c (drop (k * c) t))) [0..<(length t + c - 1) div c]"
    using py_slice_window[of _ t c] ceil_div_bound[OF assms, of _ "length t"]
    by (auto simp flip: of_nat_mult)
  then show ?thesis
    using assms by (simp add: chunk_text_def py_range_def range_length_pos foldl_chunk_step del: map_map)
qed

lemma chunk_text_windows:
  assumes "0 < chunk_size"
  shows "chunk_text t chunk_size =
           Inr (filter (\<lambda>w. 50 < length w) (map strip (windows t (nat chunk_size))))"
proof -
  have c: "0 < nat chunk_size" "chunk_size = int (nat chunk_size)" using assms by simp_all
  show ?thesis
    using chunk_text_by_index[OF c(1), of t] c(2)
    by (simp add: windows_by_index[OF c(1)] comp_def)
qed

lemma concat_windows_take:
  "concat (map (\<lambda>k. take c (drop (k * c) t)) [0..<m]) = take (m * c) t"
proof (induction m)
  case 0
  then show ?case by simp
next
  case (Suc m)
  have "take (m * c) t @ take c (drop (m * c) t) = take (m * c + c) t"
    by (simp add: take_add)
  then show ?case using Suc by (simp add: add.commute)
qed

lemma concat_windows:
  assumes "0 < c"
  shows "concat (windows t c) = t"
proof -
  have "length t \<le> ((length t + c - 1) div c) * c"
  proof (cases "c dvd length t")
    case True
    then show ?thesis using ceil_dvd(2)[OF assms True] by simp
  next
    case False
    have "length t < (length t div c + 1) * c"
      using assms by (metis Suc_eq_plus1 dividend_less_div_times mult.commute mult_Suc add.commute)
    moreover have "(length t + c - 1) div c = length t div c + 1"
      using ceil_not_dvd[OF assms False] assms div_add_self2[of c "length t"] by simp
    ultimately show ?thesis by simp
  qed
  then show ?thesis
    by (simp add: windows_by_index[OF assms] concat_windows_take)
qed

subsection \<open>Stripping\<close>

lemma dropWhile_strip: "dropWhile is_space (strip s) = strip s"
proof (cases "strip s = []")
  case True
  then show ?thesis by simp
next
  case False
  define t where "t = dropWhile is_space s"
  define u where "u = dropWhile is_space (rev t)"
  have su: "strip s = rev u" by (simp add: strip_def t_def u_def)
  with False have "u \<noteq> []" by simp
  have "rev t = takeWhile is_space (rev t) @ u" by (simp add: u_def)
  then have "last (rev t) = last u" using \<open>u \<noteq> []\<close> by (metis last_appendR)
  moreover have "t \<noteq> []" using \<open>u \<noteq> []\<close> by (auto simp: u_def)
  ultimately have "last u = hd t" by (simp add: last_rev)
  moreover have "\<not> is_space (hd t)"
    using \<open>t \<noteq> []\<close> unfolding t_def by (rule hd_dropWhile)
  ultimately have "\<not> is_space (hd (rev u))" using \<open>u \<noteq> []\<close> by (simp add: hd_rev)
  then show ?thesis unfolding su using \<open>u \<noteq> []\<close>
    by (cases "rev u") auto
qed

lemma strip_strip: "strip (strip s) = strip s"
proof -
  have "strip (strip s) = rev (dropWhile is_space (rev (strip s)))"
    by (simp add: strip_def[of "strip s"] dropWhile_strip)
  also have "\<dots> = strip s"
    by (simp add: strip_def)
  finally show ?thesis .
qed

lemma strip_decompose: "leading s @ strip s @ trailing s = s"
proof -
  have "strip s @ trailing s = dropWhile is_space s"
    unfolding strip_def trailing_def
    by (metis rev_append rev_rev_ident takeWhile_dropWhile_id)
  then show ?thesis by (simp add: leading_def)
qed

lemma leading_space: "c \<in> set (leading s) \<Longrightarrow> is_space c"
  unfolding leading_def by (rule set_takeWhileD[THEN conjunct2])

lemma trailing_space: "c \<in> set (trailing s) \<Longrightarrow> is_space c"
  unfolding trailing_def using set_takeWhileD by fastforce

lemma chunk_text_valid:
  assumes "chunk_text t cs = Inr chunks" "c \<in> set chunks"
  shows "valid_chunk c"
proof -
  from assms(1) obtain idxs where
    "chunks = filter (\<lambda>c. 50 < length c) (map (\<lambda>i. strip (py_slice t i (i + cs))) idxs)"
    by (auto simp: chunk_text_def foldl_chunk_step split: sum.splits)
  with assms(2) show ?thesis
    by (auto simp: valid_chunk_def strip_strip)
qed

lemma strip_clean:
  assumes "s \<noteq> []" "\<not> is_space (hd s)" "\<not> is_space (last s)"
  shows "strip s = s"
proof -
  have a: "dropWhile is_space s = s" using assms(1,2) by (cases s) auto
  have "dropWhile is_space (rev s) = rev s"
    using assms(1,3) by (cases "rev s") (auto simp: last_rev[symmetric] hd_rev)
  then show ?thesis by (simp add: strip_def a)
qed

lemma strip_append_space:
  assumes "\<And>c. c \<in> set b \<Longrightarrow> is_space c"
  shows "strip (s @ b) = strip s"
proof -
  have "dropWhile is_space (rev (dropWhile is_space (s @ b))) = dropWhile is_space (rev (dropWhile is_space s))"
  proof (cases "\<forall>c\<in>set s. is_space c")
    case True
    then have x: "dropWhile is_space s = []" by (simp add: dropWhile_eq_Nil_conv)
    have y: "dropWhile is_space (s @ b) = dropWhile is_space b" using True by simp
    have z: "dropWhile is_space b = []" using assms by (simp add: dropWhile_eq_Nil_conv)
    show ?thesis unfolding x y z ..
  next
    case False
    then have "dropWhile is_space (s @ b) = dropWhile is_space s @ b"
      by (auto simp: dropWhile_append)
    moreover have "dropWhile is_space (rev b @ rev (dropWhile is_space s)) =
        dropWhile is_space (rev (dropWhile is_space s))"
      by (rule dropWhile_append2) (simp add: assms)
    ultimately show ?thesis by simp
  qed
  then show ?thesis by (simp add: strip_def)
qed

lemma strip_space_append:
  assumes "\<And>c. c \<in> set a \<Longrightarrow> is_space c"
  shows "strip (a @ s) = strip s"
  using assms by (simp add: strip_def)

lemma windows_two:
  assumes "length a = c" "0 < length b" "length b \<le> c"
  shows "windows (a @ b) c = [a, b]"
proof -
  have c: "0 < c" using assms(2,3) by linarith
  have "(length (a @ b) + c - 1) div c = 2"
  proof -
    have "length (a @ b) + c - 1 = c * 2 + (length b - 1)"
      using assms(1,2) by (simp add: algebra_simps Suc_leI)
    then have "(length (a @ b) + c - 1) div c = 2 + (length b - 1) div c"
      using c by (simp only: div_mult_self4)
    moreover have "length b - 1 < c" using assms(2,3) by arith
    then have "(length b - 1) div c = 0" by (rule div_less)
    ultimately show ?thesis by simp
  qed
  moreover have "[0..<2] = [0, Suc 0]" by (simp add: upt_rec)
  ultimately show ?thesis
    using assms by (simp add: windows_by_index[OF c])
qed

subsection \<open>The chunks are the long stripped windows\<close>

text \<open>
  C2. For every text and every positive chunk size, \<open>chunk_text\<close> returns the stripped
  windows of that size, left to right, without those of 50 code points or fewer.
\<close>

theorem chunk_text_stripped_windows:
  "0 < chunk_size \<Longrightarrow>
     chunk_text text chunk_size =
       Inr (filter (\<lambda>w. 50 < length w) (map strip (windows text (nat chunk_size))))"
  by (rule chunk_text_windows)

theorem chunk_text_stripped_windows_witness:
  "(0::int) < 100 \<and>
   chunk_text (replicate 70 97 @ replicate 30 32 @ replicate 20 98) 100 = Inr [replicate 70 97]"
proof -
  have w: "windows ((replicate 70 97 @ replicate 30 32) @ replicate 20 98) 100 =
             [replicate 70 97 @ replicate 30 32, replicate 20 98]"
    by (rule windows_two) simp_all
  have s1: "strip (replicate 70 97 @ replicate 30 32) = replicate 70 97"
  proof -
    have "strip (replicate 70 97 @ replicate 30 32) = strip (replicate 70 97)"
      by (rule strip_append_space) (simp add: is_space_def)
    then show ?thesis by (simp add: strip_clean is_space_def)
  qed
  have s2: "strip (replicate 20 98) = replicate 20 98"
    by (simp add: strip_clean is_space_def)
  have h: "(0::int) < 100" by simp
  show ?thesis
    using chunk_text_stripped_windows[OF h, of "replicate 70 97 @ replicate 30 32 @ replicate 20 98"] w s1 s2
    by simp
qed

subsection \<open>What chunking drops\<close>

text \<open>
  C3, as the specification states it, fails: a window in the middle or at the start
  of the text is dropped like any other when 50 code points or fewer are left of it
  after stripping. Here the text is \<^verbatim>\<open>hello\<close>, 395 spaces and 400 times \<^verbatim>\<open>a\<close>; at the
  default chunk size the first window is dropped, and the text does not begin with what
  remains.
\<close>

theorem chunk_text_drops_first_window:
  "chunk_text (str ''hello'' @ replicate 395 32 @ replicate 400 97) 400 = Inr [replicate 400 97] \<and>
   \<not> rebuilds_up_to_tail (str ''hello'' @ replicate 395 32 @ replicate 400 97) [replicate 400 97]"
proof
  have w: "windows ((str ''hello'' @ replicate 395 32) @ replicate 400 97) 400 =
             [str ''hello'' @ replicate 395 32, replicate 400 97]"
    by (rule windows_two) (simp_all add: str_def)
  have s1: "strip (str ''hello'' @ replicate 395 32) = str ''hello''"
  proof -
    have "strip (str ''hello'' @ replicate 395 32) = strip (str ''hello'')"
      by (rule strip_append_space) (simp add: is_space_def)
    then show ?thesis by (simp add: strip_clean is_space_def str_def)
  qed
  have s2: "strip (replicate 400 97) = replicate 400 97"
    by (simp add: strip_clean is_space_def)
  have "length (str ''hello'') = 5" by (simp add: str_def)
  then show "chunk_text (str ''hello'' @ replicate 395 32 @ replicate 400 97) 400 = Inr [replicate 400 97]"
    using chunk_text_windows[of 400 "str ''hello'' @ replicate 395 32 @ replicate 400 97"] w s1 s2
    by simp
next
  have a: "non_space (str ''hello'' @ replicate 395 32 @ replicate 400 97) = str ''hello'' @ replicate 400 97"
    by (simp add: non_space_def is_space_def str_def)
  have b: "non_space (concat [replicate 400 97]) = replicate 400 97"
    by (simp add: non_space_def is_space_def)
  have "replicate 400 97 @ x \<noteq> str ''hello'' @ replicate 400 97" for x
  proof
    assume "replicate 400 97 @ x = str ''hello'' @ replicate 400 97"
    then have "hd (replicate 400 97 @ x) = hd (str ''hello'' @ replicate 400 97)" by simp
    then show False by (simp add: str_def)
  qed
  then show "\<not> rebuilds_up_to_tail (str ''hello'' @ replicate 395 32 @ replicate 400 97) [replicate 400 97]"
    unfolding rebuilds_up_to_tail_def a b by blast
qed

text \<open>
  C3 as amended. For every text and every positive chunk size the windows, put end to end,
  are the text; each window is white space, its stripped form, and white space; and the
  chunks are the stripped forms of the windows, in order, without those of 50 code points
  or fewer, wherever in the text such a window lies.
\<close>

theorem chunk_text_rebuilds_text:
  "0 < chunk_size \<Longrightarrow>
     concat (map (\<lambda>w. leading w @ strip w @ trailing w) (windows text (nat chunk_size))) = text \<and>
     (\<forall>w c. c \<in> set (leading w) \<or> c \<in> set (trailing w) \<longrightarrow> is_space c) \<and>
     chunk_text text chunk_size =
       Inr (filter (\<lambda>w. 50 < length w) (map strip (windows text (nat chunk_size))))"
  using concat_windows[of "nat chunk_size" "text"] chunk_text_windows[of chunk_size "text"]
  by (auto simp: strip_decompose leading_space trailing_space)

theorem chunk_text_rebuilds_text_witness:
  "(0::int) < 100 \<and>
   32 \<in> set (trailing (replicate 70 97 @ replicate 30 32)) \<and> is_space 32 \<and>
   concat (map (\<lambda>w. leading w @ strip w @ trailing w)
     (windows (replicate 70 97 @ replicate 30 32 @ replicate 20 98) (nat 100))) =
       replicate 70 97 @ replicate 30 32 @ replicate 20 98 \<and>
   chunk_text (replicate 70 97 @ replicate 30 32 @ replicate 20 98) 100 = Inr [replicate 70 97]"
proof -
  have w: "windows ((replicate 70 97 @ replicate 30 32) @ replicate 20 98) 100 =
             [replicate 70 97 @ replicate 30 32, replicate 20 98]"
    by (rule windows_two) simp_all
  have s1: "strip (replicate 70 97 @ replicate 30 32) = replicate 70 97"
  proof -
    have "strip (replicate 70 97 @ replicate 30 32) = strip (replicate 70 97)"
      by (rule strip_append_space) (simp add: is_space_def)
    then show ?thesis by (simp add: strip_clean is_space_def)
  qed
  have s2: "strip (replicate 20 98) = replicate 20 98"
    by (simp add: strip_clean is_space_def)
  have h: "(0::int) < 100" by simp
  have t: "32 \<in> set (trailing (replicate 70 97 @ replicate 30 32))"
    by (simp add: trailing_def dropWhile_append takeWhile_append is_space_def)
  have "chunk_text (replicate 70 97 @ replicate 30 32 @ replicate 20 98) 100 = Inr [replicate 70 97]"
    using chunk_text_rebuilds_text[OF h, of "replicate 70 97 @ replicate 30 32 @ replicate 20 98"] w s1 s2
    by simp
  moreover have "is_space 32"
    using chunk_text_rebuilds_text[OF h, of "replicate 70 97 @ replicate 30 32 @ replicate 20 98"] t
    by blast
  ultimately show ?thesis
    using chunk_text_rebuilds_text[OF h, of "replicate 70 97 @ replicate 30 32 @ replicate 20 98"] t
    by simp
qed

section \<open>Properties of the corpus\<close>

lemma process_pdfs_valid:
  assumes "\<forall>c\<in>set (DOCUMENT_CHUNKS st). valid_chunk c"
  shows "\<forall>c\<in>set (DOCUMENT_CHUNKS (snd (process_pdfs files st))). valid_chunk c"
  using assms chunk_text_valid
  by (auto simp: process_pdfs_def split: option.splits sum.splits)

lemma perform_valid:
  assumes "\<forall>c\<in>set (DOCUMENT_CHUNKS st). valid_chunk c"
  shows "\<forall>c\<in>set (DOCUMENT_CHUNKS (perform st x)). valid_chunk c"
proof (cases x)
  case (Process_Pdfs files)
  then show ?thesis using process_pdfs_valid[OF assms] by simp
next
  case Clear_All
  then show ?thesis by (simp add: clear_all_def)
qed

lemma run_valid:
  assumes "\<forall>c\<in>set (DOCUMENT_CHUNKS st). valid_chunk c"
  shows "\<forall>c\<in>set (DOCUMENT_CHUNKS (run ops st)). valid_chunk c"
  using assms unfolding run_def
proof (induction ops arbitrary: st)
  case Nil
  then show ?case by simp
next
  case (Cons x ops)
  from Cons.prems have "\<forall>c\<in>set (DOCUMENT_CHUNKS (perform st x)). valid_chunk c"
    by (rule perform_valid)
  then show ?case using Cons.IH by simp
qed

text \<open>
  C7. After any sequence of \<open>process_pdfs\<close> and \<open>clear_all\<close>, run from the state in
  which the module is loaded, every chunk of the corpus is its own stripped form and is
  longer than 50 code points (an empty corpus has no chunk).
\<close>

theorem corpus_chunks_valid:
  "\<forall>c \<in> set (DOCUMENT_CHUNKS (run ops (initial key))). strip c = c \<and> 50 < length c"
  using run_valid[of "initial key" ops] by (simp add: initial_def valid_chunk_def)

lemma chunk_text_short:
  assumes "0 < length t" "length t \<le> 400"
  shows "chunk_text t 400 = Inr (if 50 < length (strip t) then [strip t] else [])"
proof -
  have "(length t + 400 - 1) div 400 = 1"
  proof -
    have "length t + 400 - 1 = 400 * 1 + (length t - 1)" using assms(1) by simp
    then have "(length t + 400 - 1) div 400 = 1 + (length t - 1) div 400"
      by (simp only: div_mult_self4)
    moreover have "length t - 1 < 400" using assms by arith
    then have "(length t - 1) div 400 = 0" by (rule div_less)
    ultimately show ?thesis by simp
  qed
  then show ?thesis
    using chunk_text_by_index[of 400 t] assms by simp
qed

theorem corpus_chunks_valid_witness:
  "replicate 60 97 \<in> set (DOCUMENT_CHUNKS (run
       [Process_Pdfs (Some [Inr [Some (replicate 90 98)]]), Clear_All,
        Process_Pdfs (Some [Inr [Some (replicate 60 97), None]])] (initial None))) \<and>
   strip (replicate 60 97) = replicate 60 97 \<and> 50 < length (replicate 60 97 :: pystr)"
proof -
  have s: "strip (replicate n 97 @ str ''\<newline>'') = replicate n 97" if "0 < n" for n
  proof -
    have "strip (replicate n 97 @ str ''\<newline>'') = strip (replicate n 97)"
      by (rule strip_append_space) (simp add: is_space_def str_def)
    then show ?thesis using that by (simp add: strip_clean is_space_def)
  qed
  have c: "chunk_text (replicate n 97 @ str ''\<newline>'') 400 = Inr [replicate n 97]"
    if "50 < n" "n < 400" for n
    using chunk_text_short[of "replicate n 97 @ str ''\<newline>''"] s[of n] that
    by (simp add: str_def)
  have "DOCUMENT_CHUNKS (run
       [Process_Pdfs (Some [Inr [Some (replicate 90 98)]]), Clear_All,
        Process_Pdfs (Some [Inr [Some (replicate 60 97), None]])] (initial None)) = [replicate 60 97]"
    using c[of 60]
    by (simp add: run_def process_pdfs_def clear_all_def extract_text_from_pdfs_def page_step_def
        default_chunk_size_def initial_def split: sum.splits)
  then show ?thesis
    using corpus_chunks_valid[of "[Process_Pdfs (Some [Inr [Some (replicate 90 98)]]), Clear_All,
        Process_Pdfs (Some [Inr [Some (replicate 60 97), None]])]" None]
    by simp
qed

text \<open>
  C8. When \<open>files\<close> is \<^verbatim>\<open>None\<close> or the empty list, \<open>process_pdfs\<close> returns the message
  that no files were uploaded and the state, with its corpus, is the one it was given.
\<close>

theorem process_pdfs_no_files:
  "process_pdfs None st = (Inr NO_FILES, st) \<and> process_pdfs (Some []) st = (Inr NO_FILES, st)"
  by (simp add: process_pdfs_def)

section \<open>Properties of retrieval\<close>

subsection \<open>Sorting and slicing\<close>

lemma set_sort_reverse: "set (sort_reverse k xs) = set xs"
  by (simp add: sort_reverse_def)

lemma sorted_sort_reverse: "sorted_wrt (\<lambda>a b. k b \<le> k a) (sort_reverse k xs)"
proof -
  have "sorted (map k (sort_key k (rev xs)))" by simp
  then have "sorted_wrt (\<lambda>a b. k a \<le> k b) (sort_key k (rev xs))"
    by (simp add: sorted_wrt_map)
  then show ?thesis
    by (simp add: sort_reverse_def sorted_wrt_rev)
qed

lemma filter_sort_reverse:
  "filter (\<lambda>y. k y = v) (sort_reverse k xs) = filter (\<lambda>y. k y = v) xs"
proof -
  have "filter (\<lambda>y. k y = v) (sort_reverse k xs) = rev (filter (\<lambda>y. k y = v) (sort_key k (rev xs)))"
    by (simp add: sort_reverse_def rev_filter)
  also have "\<dots> = rev (filter (\<lambda>y. k y = v) (rev xs))"
    by (simp only: sort_key_stable)
  also have "\<dots> = filter (\<lambda>y. k y = v) xs"
    by (simp add: rev_filter)
  finally show ?thesis .
qed

lemma py_slice_from_0: "py_slice xs 0 k = take (nat (clamp_index (int (length xs)) k)) xs"
  by (simp add: py_slice_def clamp_index_def Let_def)

lemma py_slice_top: "0 \<le> k \<Longrightarrow> py_slice xs 0 k = take (nat k) xs"
  by (auto simp: py_slice_from_0 clamp_index_def min_def)

subsection \<open>The scoring loop\<close>

lemma foldl_score_step:
  "foldl (score_step Q) acc corpus =
     acc @ filter (\<lambda>p. 0 < fst p) (map (\<lambda>c. (overlap_score Q c, c)) corpus)"
  by (induction corpus arbitrary: acc) (auto simp: score_step_def Let_def)

lemma scored_eq:
  "scored Q corpus = filter (\<lambda>p. 0 < fst p) (map (\<lambda>c. (overlap_score Q c, c)) corpus)"
  by (simp add: scored_def foldl_score_step)

lemma scored_fst: "p \<in> set (scored Q corpus) \<Longrightarrow> fst p = overlap_score Q (snd p)"
  by (auto simp: scored_eq)

lemma scored_mem: "p \<in> set (scored Q corpus) \<Longrightarrow> snd p \<in> set corpus \<and> 0 < fst p"
  by (auto simp: scored_eq)

lemma map_snd_scored: "map snd (scored Q corpus) = filter (\<lambda>c. 0 < overlap_score Q c) corpus"
  by (induction corpus) (auto simp: scored_eq)

lemma retrieve_as_take:
  "retrieve_relevant_chunks q top_k corpus =
     (if clean_words q = {} then []
      else map snd (take (nat (clamp_index (int (length (scored (clean_words q) corpus))) top_k))
             (sort_reverse fst (scored (clean_words q) corpus))))"
  by (simp add: retrieve_relevant_chunks_def Let_def py_slice_from_0 sort_reverse_def)

lemma retrieve_mem:
  assumes "c \<in> set (retrieve_relevant_chunks q top_k corpus)"
  shows "c \<in> set corpus \<and> 0 < overlap_score (clean_words q) c"
proof -
  from assms obtain p where p: "p \<in> set (sort_reverse fst (scored (clean_words q) corpus))" "c = snd p"
    by (auto simp: retrieve_as_take split: if_splits dest: in_set_takeD)
  then have "p \<in> set (scored (clean_words q) corpus)" by (simp add: set_sort_reverse)
  then have "snd p \<in> set corpus \<and> 0 < fst p" "fst p = overlap_score (clean_words q) (snd p)"
    by (rule scored_mem, rule scored_fst)
  then show ?thesis using p(2) by simp
qed

lemma retrieve_sorted:
  "sorted_wrt (\<lambda>a b. overlap_score (clean_words q) b \<le> overlap_score (clean_words q) a)
     (retrieve_relevant_chunks q top_k corpus)"
proof (cases "clean_words q = {}")
  case True
  then show ?thesis by (simp add: retrieve_as_take)
next
  case False
  let ?Q = "clean_words q"
  let ?S = "sort_reverse fst (scored ?Q corpus)"
  let ?T = "take (nat (clamp_index (int (length (scored ?Q corpus))) top_k)) ?S"
  have "sorted_wrt (\<lambda>a b. fst b \<le> fst a) ?T"
    using sorted_sort_reverse[of fst "scored ?Q corpus"] by (rule sorted_wrt_take)
  moreover have "\<And>p. p \<in> set ?T \<Longrightarrow> fst p = overlap_score ?Q (snd p)"
    by (rule scored_fst) (auto dest!: in_set_takeD simp: set_sort_reverse)
  ultimately have "sorted_wrt (\<lambda>a b. overlap_score ?Q (snd b) \<le> overlap_score ?Q (snd a)) ?T"
    by (rule_tac sorted_wrt_mono_rel[where P="\<lambda>a b. fst b \<le> fst a"]) simp_all
  then show ?thesis using False by (simp add: retrieve_as_take sorted_wrt_map)
qed

lemma retrieve_length: "0 \<le> top_k \<Longrightarrow> length (retrieve_relevant_chunks q top_k corpus) \<le> nat top_k"
  by (simp add: retrieve_relevant_chunks_def Let_def py_slice_top)

lemma retrieve_empty: "clean_words q = {} \<or> corpus = [] \<Longrightarrow> retrieve_relevant_chunks q top_k corpus = []"
  by (auto simp: retrieve_as_take scored_eq sort_reverse_def)

lemma retrieve_stable:
  "prefix (filter (\<lambda>c. overlap_score (clean_words q) c = s) (retrieve_relevant_chunks q top_k corpus))
          (filter (\<lambda>c. overlap_score (clean_words q) c = s) corpus)"
proof (cases "clean_words q = {}")
  case True
  then show ?thesis by (simp add: retrieve_as_take)
next
  case False
  let ?Q = "clean_words q"
  let ?S = "sort_reverse fst (scored ?Q corpus)"
  let ?T = "take (nat (clamp_index (int (length (scored ?Q corpus))) top_k)) ?S"
  have fst_T: "\<And>p. p \<in> set ?T \<Longrightarrow> fst p = overlap_score ?Q (snd p)"
    by (rule scored_fst) (auto dest!: in_set_takeD simp: set_sort_reverse)
  have "filter (\<lambda>c. overlap_score ?Q c = s) (map snd ?T) = map snd (filter (\<lambda>p. overlap_score ?Q (snd p) = s) ?T)"
    by (simp add: filter_map comp_def)
  also have "\<dots> = map snd (filter (\<lambda>p. fst p = s) ?T)"
    using fst_T by (simp cong: filter_cong)
  finally have lhs: "filter (\<lambda>c. overlap_score ?Q c = s) (retrieve_relevant_chunks q top_k corpus)
      = map snd (filter (\<lambda>p. fst p = s) ?T)"
    using False by (simp add: retrieve_as_take)
  have "prefix ?T ?S" by (rule take_is_prefix)
  then have "prefix (filter (\<lambda>p. fst p = s) ?T) (filter (\<lambda>p. fst p = s) ?S)"
    by (rule filter_mono_prefix)
  then have "prefix (map snd (filter (\<lambda>p. fst p = s) ?T)) (map snd (filter (\<lambda>p. fst p = s) (scored ?Q corpus)))"
    by (simp add: filter_sort_reverse map_mono_prefix)
  moreover have "map snd (filter (\<lambda>p. fst p = s) (scored ?Q corpus))
      = filter (\<lambda>c. overlap_score ?Q c = s) (map snd (scored ?Q corpus))"
    using scored_fst[of _ ?Q corpus]
    by (simp add: filter_map comp_def cong: filter_cong)
  moreover have "prefix (filter (\<lambda>c. overlap_score ?Q c = s) (map snd (scored ?Q corpus)))
      (filter (\<lambda>c. overlap_score ?Q c = s) corpus)"
  proof (cases "0 < s")
    case True
    then have "filter (\<lambda>c. overlap_score ?Q c = s) (map snd (scored ?Q corpus)) = filter (\<lambda>c. overlap_score ?Q c = s) corpus"
      by (auto simp: map_snd_scored intro: filter_cong)
    then show ?thesis by simp
  next
    case False
    then have "filter (\<lambda>c. overlap_score ?Q c = s) (map snd (scored ?Q corpus)) = []"
      by (auto simp: map_snd_scored filter_empty_conv)
    then show ?thesis by simp
  qed
  ultimately show ?thesis unfolding lhs by simp
qed

subsection \<open>Evaluating on literals\<close>

lemmas eval_words =
  clean_words_def split_def lower_def lower_cp_def re_sub_other_def is_space_def
  is_lower_alnum_def str_def

lemmas eval_retrieve =
  retrieve_relevant_chunks_def scored_def score_step_def overlap_score_def py_slice_def
  clamp_index_def sort_reverse_def Let_def

subsection \<open>The chunks returned\<close>

text \<open>
  C1. For every corpus, every query and every \<open>top_k\<close> that is not negative,
  \<open>retrieve_relevant_chunks\<close> returns at most \<open>top_k\<close> chunks (at most 3 by default);
  each of them is in the corpus and shares a word with the query; they are in descending
  order of overlap; and the result is empty when the query has no word or the corpus is
  empty.
\<close>

theorem retrieve_relevant_chunks_top_k:
  "0 \<le> top_k \<Longrightarrow>
     length (retrieve_relevant_chunks query top_k corpus) \<le> nat top_k \<and>
     length (retrieve_relevant_chunks query default_top_k corpus) \<le> 3 \<and>
     (\<forall>c \<in> set (retrieve_relevant_chunks query top_k corpus).
        c \<in> set corpus \<and> clean_words query \<inter> clean_words c \<noteq> {} \<and>
        0 < overlap_score (clean_words query) c) \<and>
     sorted_wrt (\<lambda>a b. overlap_score (clean_words query) b \<le> overlap_score (clean_words query) a)
       (retrieve_relevant_chunks query top_k corpus) \<and>
     (clean_words query = {} \<or> corpus = [] \<longrightarrow> retrieve_relevant_chunks query top_k corpus = [])"
proof (intro conjI ballI impI)
  assume "0 \<le> top_k"
  then show "length (retrieve_relevant_chunks query top_k corpus) \<le> nat top_k"
    by (rule retrieve_length)
next
  show "length (retrieve_relevant_chunks query default_top_k corpus) \<le> 3"
    using retrieve_length[of default_top_k query corpus] by (simp add: default_top_k_def)
next
  fix c
  assume c: "c \<in> set (retrieve_relevant_chunks query top_k corpus)"
  then show "c \<in> set corpus" and pos: "0 < overlap_score (clean_words query) c"
    using retrieve_mem by blast+
  then show "clean_words query \<inter> clean_words c \<noteq> {}"
    by (auto simp: overlap_score_def)
next
  show "sorted_wrt (\<lambda>a b. overlap_score (clean_words query) b \<le> overlap_score (clean_words query) a)
       (retrieve_relevant_chunks query top_k corpus)"
    by (rule retrieve_sorted)
next
  assume "clean_words query = {} \<or> corpus = []"
  then show "retrieve_relevant_chunks query top_k corpus = []"
    by (rule retrieve_empty)
qed

theorem retrieve_relevant_chunks_top_k_witness:
  "(0::int) \<le> 2 \<and>
   retrieve_relevant_chunks (str ''cat dog'') 2
     [str ''the cat sat'', str ''dogs bark'', str ''a dog and a cat'', str ''my dog'']
     = [str ''a dog and a cat'', str ''the cat sat''] \<and>
   str ''the cat sat'' \<in> set [str ''the cat sat'', str ''dogs bark'', str ''a dog and a cat'', str ''my dog''] \<and>
   0 < overlap_score (clean_words (str ''cat dog'')) (str ''the cat sat'') \<and>
   overlap_score (clean_words (str ''cat dog'')) (str ''the cat sat'')
     \<le> overlap_score (clean_words (str ''cat dog'')) (str ''a dog and a cat'') \<and>
   clean_words (str ''?!'') = {} \<and>
   retrieve_relevant_chunks (str ''?!'') 2
     [str ''the cat sat'', str ''dogs bark'', str ''a dog and a cat'', str ''my dog''] = []"
proof -
  let ?corpus = "[str ''the cat sat'', str ''dogs bark'', str ''a dog and a cat'', str ''my dog'']"
  have h: "(0::int) \<le> 2" by simp
  have r: "retrieve_relevant_chunks (str ''cat dog'') 2 ?corpus
             = [str ''a dog and a cat'', str ''the cat sat'']"
    by (simp add: eval_words eval_retrieve)
  have e: "clean_words (str ''?!'') = {}"
    by (simp add: eval_words)
  show ?thesis
    using retrieve_relevant_chunks_top_k[OF h, of "str ''cat dog''" ?corpus]
      retrieve_relevant_chunks_top_k[OF h, of "str ''?!''" ?corpus] e
    unfolding r by simp
qed

subsection \<open>Equal overlaps keep the order of the corpus\<close>

text \<open>
  C4. For every corpus, query, \<open>top_k\<close> and overlap count \<open>s\<close>, the returned chunks
  of overlap \<open>s\<close> are, in the same order, the first of the chunks of overlap \<open>s\<close>
  in the corpus: among equal overlaps the order of the corpus is kept, and the earlier
  chunk is the one returned.
\<close>

theorem retrieve_relevant_chunks_stable:
  "prefix
     (filter (\<lambda>c. overlap_score (clean_words query) c = s)
        (retrieve_relevant_chunks query top_k corpus))
     (filter (\<lambda>c. overlap_score (clean_words query) c = s) corpus)"
  by (rule retrieve_stable)

section \<open>Properties of normalization\<close>

subsection \<open>Splitting\<close>

lemma split_run_space_prefix:
  assumes "\<And>c. c \<in> set sep \<Longrightarrow> is_space c"
  shows "split_run [] (sep @ b) = split_run [] b"
  using assms by (induction sep) auto

lemma split_run_append_space:
  assumes "is_space sp"
  shows "split_run cur (a @ sp # b) = split_run cur a @ split_run [] b"
  using assms by (induction a arbitrary: cur) auto

lemma split_run_append_sep:
  assumes "sep \<noteq> []" "\<And>c. c \<in> set sep \<Longrightarrow> is_space c"
  shows "split_run cur (a @ sep @ b) = split_run cur a @ split_run [] b"
proof -
  from assms(1) obtain sp sep' where sep: "sep = sp # sep'" by (cases sep) auto
  then have "is_space sp" "\<And>c. c \<in> set sep' \<Longrightarrow> is_space c" using assms(2) by auto
  then show ?thesis
    unfolding sep by (simp add: split_run_append_space split_run_space_prefix)
qed

lemma split_run_token:
  assumes "\<And>c. c \<in> set t \<Longrightarrow> \<not> is_space c"
  shows "split_run cur t = (if cur @ t = [] then [] else [cur @ t])"
  using assms by (induction t arbitrary: cur) auto

lemma split_run_words:
  assumes "w \<in> set (split_run cur s)"
  shows "w \<noteq> [] \<and> set w \<subseteq> set cur \<union> {c \<in> set s. \<not> is_space c}"
  using assms
proof (induction s arbitrary: cur)
  case Nil
  then show ?case by (auto split: if_splits)
next
  case (Cons c s)
  show ?case
  proof (cases "is_space c")
    case True
    then show ?thesis using Cons.prems Cons.IH[of "[]"]
      by (auto split: if_splits)
  next
    case False
    then show ?thesis using Cons.prems Cons.IH[of "cur @ [c]"]
      by auto
  qed
qed

lemma split_append_sep:
  assumes "sep \<noteq> []" "\<And>c. c \<in> set sep \<Longrightarrow> is_space c"
  shows "split (a @ sep @ b) = split a @ split b"
  unfolding split_def using assms by (rule split_run_append_sep)

lemma split_join:
  assumes "sep \<noteq> []" "\<And>c. c \<in> set sep \<Longrightarrow> is_space c"
    and "\<And>w. w \<in> set ws \<Longrightarrow> w \<noteq> []"
    and "\<And>w c. w \<in> set ws \<Longrightarrow> c \<in> set w \<Longrightarrow> \<not> is_space c"
  shows "split (join sep ws) = ws"
  using assms
proof (induction sep ws rule: join.induct)
  case (1 sep)
  then show ?case by (simp add: split_def)
next
  case (2 sep x)
  then show ?case by (simp add: split_def split_run_token)
next
  case (3 sep x y ys)
  have "split (x @ sep @ join sep (y # ys)) = split x @ split (join sep (y # ys))"
    using 3(2,3) by (rule split_append_sep)
  moreover have "split x = [x]"
    using 3(4)[of x] 3(5)[of x] by (simp add: split_def split_run_token)
  moreover have "split (join sep (y # ys)) = y # ys"
    using 3(2,3) 3(4) 3(5) by (intro 3(1)) auto
  ultimately show ?case by simp
qed

subsection \<open>Lower case and substitution\<close>

lemma alnum_not_space: "is_lower_alnum c \<Longrightarrow> \<not> is_space c"
  by (auto simp: is_lower_alnum_def is_space_def)

lemma lower_cp_alnum: "is_lower_alnum c \<Longrightarrow> lower_cp c = [c]"
  by (auto simp: is_lower_alnum_def lower_cp_def)

lemma lower_cp_space: "is_space c \<Longrightarrow> lower_cp c = [c]"
  by (auto simp: is_space_def lower_cp_def)

lemma lower_append: "lower (a @ b) = lower a @ lower b"
  by (simp add: lower_def)

lemma re_sub_other_append: "re_sub_other (a @ b) = re_sub_other a @ re_sub_other b"
  by (simp add: re_sub_other_def)

lemma lower_id:
  assumes "\<And>c. c \<in> set s \<Longrightarrow> is_lower_alnum c \<or> is_space c"
  shows "lower s = s"
proof -
  have "lower_cp c = [c]" if "c \<in> set s" for c
    using assms[OF that] lower_cp_alnum lower_cp_space by blast
  then have "map lower_cp s = map (\<lambda>c. [c]) s" by simp
  moreover have "concat (map (\<lambda>c. [c]) s) = s" by (induction s) simp_all
  ultimately show ?thesis by (simp only: lower_def)
qed

lemma re_sub_other_id:
  assumes "\<And>c. c \<in> set s \<Longrightarrow> is_lower_alnum c \<or> is_space c"
  shows "re_sub_other s = s"
  using assms by (induction s) (auto simp: re_sub_other_def)

lemma re_sub_other_set:
  "c \<in> set (re_sub_other s) \<Longrightarrow> is_lower_alnum c \<or> is_space c"
  by (auto simp: re_sub_other_def is_space_def)

lemma clean_words_word:
  assumes "w \<in> clean_words s"
  shows "w \<noteq> []" and "\<And>c. c \<in> set w \<Longrightarrow> is_lower_alnum c"
proof -
  from assms have "w \<in> set (split_run [] (re_sub_other (lower s)))"
    by (simp add: clean_words_def split_def)
  then have a: "w \<noteq> [] \<and> set w \<subseteq> set [] \<union> {c \<in> set (re_sub_other (lower s)). \<not> is_space c}"
    by (rule split_run_words)
  then show "w \<noteq> []" by simp
  fix c assume "c \<in> set w"
  with a have "c \<in> set (re_sub_other (lower s))" "\<not> is_space c" by auto
  then show "is_lower_alnum c" using re_sub_other_set by blast
qed

lemma clean_words_append_sep:
  assumes "sep \<noteq> []" "\<And>c. c \<in> set sep \<Longrightarrow> is_space c"
  shows "clean_words (a @ sep @ b) = clean_words a \<union> clean_words b"
proof -
  have "lower sep = sep" "re_sub_other sep = sep"
    using assms(2) by (simp_all add: lower_id re_sub_other_id)
  then have "re_sub_other (lower (a @ sep @ b)) = re_sub_other (lower a) @ sep @ re_sub_other (lower b)"
    by (simp add: lower_append re_sub_other_append)
  then show ?thesis
    using split_append_sep[OF assms, of "re_sub_other (lower a)" "re_sub_other (lower b)"]
    by (simp add: clean_words_def)
qed

lemma join_set: "c \<in> set (join sep ws) \<Longrightarrow> c \<in> set sep \<or> (\<exists>w\<in>set ws. c \<in> set w)"
  by (induction sep ws rule: join.induct) auto

subsection \<open>Normalizing twice\<close>

text \<open>
  C5. For every string \<open>s\<close>, the words of \<open>clean_words s\<close> in any order, joined with
  a separator of white space (a space, for one), normalize to the same set of words.
\<close>

theorem clean_words_idempotent:
  "set ws = clean_words s \<Longrightarrow> sep \<noteq> [] \<Longrightarrow> \<forall>c\<in>set sep. is_space c \<Longrightarrow>
     clean_words (join sep ws) = clean_words s"
proof -
  assume ws: "set ws = clean_words s" and sep: "sep \<noteq> []" "\<forall>c\<in>set sep. is_space c"
  have ne: "\<And>w. w \<in> set ws \<Longrightarrow> w \<noteq> []"
    and al: "\<And>w c. w \<in> set ws \<Longrightarrow> c \<in> set w \<Longrightarrow> is_lower_alnum c"
    using clean_words_word[of _ s] ws by auto
  have "\<And>c. c \<in> set (join sep ws) \<Longrightarrow> is_lower_alnum c \<or> is_space c"
    using join_set[of _ sep ws] al sep(2) by blast
  then have "re_sub_other (lower (join sep ws)) = join sep ws"
    by (simp add: lower_id re_sub_other_id)
  moreover have "split (join sep ws) = ws"
  proof (rule split_join)
    show "sep \<noteq> []" by (rule sep(1))
    show "\<And>c. c \<in> set sep \<Longrightarrow> is_space c" using sep(2) by simp
    show "\<And>w. w \<in> set ws \<Longrightarrow> w \<noteq> []" by (rule ne)
    show "\<And>w c. w \<in> set ws \<Longrightarrow> c \<in> set w \<Longrightarrow> \<not> is_space c"
      using al alnum_not_space by blast
  qed
  ultimately show ?thesis
    using ws by (simp add: clean_words_def)
qed

theorem clean_words_idempotent_witness:
  "set [str ''sat'', str ''the'', str ''cat''] = clean_words (str ''The CAT, sat!'') \<and>
   str '' '' \<noteq> [] \<and> list_all is_space (str '' '') \<and>
   clean_words (join (str '' '') [str ''sat'', str ''the'', str ''cat'']) = clean_words (str ''The CAT, sat!'')"
proof -
  have a: "set [str ''sat'', str ''the'', str ''cat''] = clean_words (str ''The CAT, sat!'')"
    by (auto simp: eval_words)
  have b: "str '' '' \<noteq> []" by (simp add: str_def)
  have c: "\<forall>c\<in>set (str '' ''). is_space c" by (simp add: str_def is_space_def)
  show ?thesis
    using clean_words_idempotent[OF a b c] a b c by (simp add: list_all_iff)
qed

subsection \<open>Adding a word of the query to a chunk\<close>

text \<open>
  C6. For every query, chunk and word \<open>w\<close> of the query's word set, the chunk followed
  by white space and \<open>w\<close> has an overlap score that is not less than the chunk's.
\<close>

theorem overlap_score_monotonic:
  "w \<in> clean_words query \<Longrightarrow> sep \<noteq> [] \<Longrightarrow> \<forall>c\<in>set sep. is_space c \<Longrightarrow>
     overlap_score (clean_words query) chunk \<le> overlap_score (clean_words query) (chunk @ sep @ w)"
proof -
  assume sep: "sep \<noteq> []" "\<forall>c\<in>set sep. is_space c"
  then have "clean_words (chunk @ sep @ w) = clean_words chunk \<union> clean_words w"
    by (intro clean_words_append_sep) auto
  moreover have "finite (clean_words query \<inter> (clean_words chunk \<union> clean_words w))"
    by (simp add: clean_words_def)
  ultimately show ?thesis
    unfolding overlap_score_def by (auto intro!: card_mono)
qed

theorem overlap_score_monotonic_witness:
  "str ''dog'' \<in> clean_words (str ''cat dog'') \<and> str '' '' \<noteq> [] \<and>
   list_all is_space (str '' '') \<and>
   overlap_score (clean_words (str ''cat dog'')) (str ''the cat sat'')
     \<le> overlap_score (clean_words (str ''cat dog'')) (str ''the cat sat'' @ str '' '' @ str ''dog'')"
proof -
  have a: "str ''dog'' \<in> clean_words (str ''cat dog'')"
    by (simp add: eval_words)
  have b: "str '' '' \<noteq> []" by (simp add: str_def)
  have c: "\<forall>c\<in>set (str '' ''). is_space c" by (simp add: str_def is_space_def)
  show ?thesis
    using overlap_score_monotonic[OF a b c, of "str ''the cat sat''"] a b c
    by (simp add: list_all_iff)
qed

section \<open>Properties of the messages\<close>

text \<open>
  C9. \<open>clear_all\<close> leaves the corpus empty. A question asked while the corpus is empty
  is answered with the message to process documents first, and nothing else happens. This
  message is not the one returned when the corpus is not empty, the key is set and no
  chunk matches, which says that no relevant information was found; retrieval is then
  the only call made.
\<close>

theorem clear_all_then_chat_fn:
  "DOCUMENT_CHUNKS (snd (clear_all st)) = [] \<and>
   (DOCUMENT_CHUNKS st0 = [] \<longrightarrow>
      chat_fn post message history st0 =
        (Inr ((case history of None \<Rightarrow> [] | Some h \<Rightarrow> h) @
               [\<lparr> role = str ''user'', content = message \<rparr>,
                \<lparr> role = str ''assistant'', content = PROCESS_FIRST \<rparr>], []), st0)) \<and>
   PROCESS_FIRST \<noteq> NO_RELEVANT \<and>
   (DOCUMENT_CHUNKS st1 \<noteq> [] \<and> GROQ_API_KEY st1 = Some key \<and> key \<noteq> [] \<and>
    retrieve_relevant_chunks message default_top_k (DOCUMENT_CHUNKS st1) = [] \<longrightarrow>
      chat_fn post message history st1 =
        (Inr ((case history of None \<Rightarrow> [] | Some h \<Rightarrow> h) @
               [\<lparr> role = str ''user'', content = message \<rparr>,
                \<lparr> role = str ''assistant'', content = NO_RELEVANT \<rparr>], []),
         st1\<lparr>calls := calls st1 @ [Retrieve message]\<rparr>))"
  by (simp add: clear_all_def chat_fn_def ask_groq_def PROCESS_FIRST_def NO_RELEVANT_def str_def Let_def)

theorem clear_all_then_chat_fn_witness:
  "DOCUMENT_CHUNKS (snd (clear_all
      \<lparr> DOCUMENT_CHUNKS = [str ''dogs bark loudly at night while the moon is out and about''],
        GROQ_API_KEY = Some (str ''key''), calls = [] \<rparr>)) = [] \<and>
   fst (chat_fn (\<lambda>r. Inl RequestException) (str ''cat'') None
     (snd (clear_all
      \<lparr> DOCUMENT_CHUNKS = [str ''dogs bark loudly at night while the moon is out and about''],
        GROQ_API_KEY = Some (str ''key''), calls = [] \<rparr>))) =
     Inr ([\<lparr> role = str ''user'', content = str ''cat'' \<rparr>,
           \<lparr> role = str ''assistant'', content = PROCESS_FIRST \<rparr>], []) \<and>
   retrieve_relevant_chunks (str ''cat'') default_top_k
     [str ''dogs bark loudly at night while the moon is out and about''] = [] \<and>
   fst (chat_fn (\<lambda>r. Inl RequestException) (str ''cat'') None
      \<lparr> DOCUMENT_CHUNKS = [str ''dogs bark loudly at night while the moon is out and about''],
        GROQ_API_KEY = Some (str ''key''), calls = [] \<rparr>) =
     Inr ([\<lparr> role = str ''user'', content = str ''cat'' \<rparr>,
           \<lparr> role = str ''assistant'', content = NO_RELEVANT \<rparr>], [])"
proof -
  let ?st = "\<lparr> DOCUMENT_CHUNKS = [str ''dogs bark loudly at night while the moon is out and about''],
        GROQ_API_KEY = Some (str ''key''), calls = [] \<rparr>"
  have r: "retrieve_relevant_chunks (str ''cat'') default_top_k
     [str ''dogs bark loudly at night while the moon is out and about''] = []"
    by (simp add: eval_words eval_retrieve default_top_k_def)
  have k: "str ''key'' \<noteq> []" by (simp add: str_def)
  have e: "DOCUMENT_CHUNKS (snd (clear_all ?st)) = []"
    using clear_all_then_chat_fn[of ?st] by simp
  show ?thesis
    using clear_all_then_chat_fn[of ?st "snd (clear_all ?st)" "\<lambda>r. Inl RequestException"
        "str ''cat''" None ?st "str ''key''"] r k e
    by simp
qed

text \<open>
  C10. When \<^verbatim>\<open>GROQ_API_KEY\<close> is not set, \<open>ask_groq\<close> returns the message that the key
  was not found, whatever the question, the corpus and the service are; the state it
  returns is the one it was given, so the corpus is unchanged and neither a retrieval nor
  a request has been made.
\<close>

theorem ask_groq_without_key:
  "GROQ_API_KEY st = None \<Longrightarrow> ask_groq post question st = (Inr KEY_NOT_FOUND, st)"
  by (simp add: ask_groq_def)

theorem ask_groq_without_key_witness:
  "GROQ_API_KEY \<lparr> DOCUMENT_CHUNKS = [str ''the cat sat''], GROQ_API_KEY = None, calls = [] \<rparr> = None \<and>
   ask_groq (\<lambda>r. Inr \<lparr> status_code = 200, body_content = Inr (str ''yes'') \<rparr>) (str ''cat'')
       \<lparr> DOCUMENT_CHUNKS = [str ''the cat sat''], GROQ_API_KEY = None, calls = [] \<rparr> =
     (Inr KEY_NOT_FOUND, \<lparr> DOCUMENT_CHUNKS = [str ''the cat sat''], GROQ_API_KEY = None, calls = [] \<rparr>)"
proof -
  have h: "GROQ_API_KEY \<lparr> DOCUMENT_CHUNKS = [str ''the cat sat''], GROQ_API_KEY = None, calls = [] \<rparr> = None"
    by simp
  show ?thesis
    using ask_groq_without_key[OF h] h by simp
qed

end
